theory Spec2Isabelle
  imports Complex_Main "HOL-Library.Word" "HOL-Library.Char_ord" "HOL-Library.List_Lexorder"
begin

unbundle bit_operations_syntax

section \<open>Modelling conventions\<close>

text \<open>
  The renderer is JavaScript. Its numbers are modelled as \<^typ>\<open>real\<close>: rounding of
  IEEE doubles is left out, and a computation whose JavaScript value is not a real number
  (\<open>NaN\<close>, \<open>Infinity\<close>, or an entry that is \<open>undefined\<close>) ends in \<open>NonReal\<close>. JavaScript
  throws nothing at such a point, so \<open>NonReal\<close> is a returned value and not an error.
  Array indices and the dimension count are natural numbers. A generator is modelled by the
  array that \<open>Array.from\<close> builds from it; an exception thrown while the generator runs
  replaces the whole array.
\<close>

datatype error =
    TypeError             \<comment> \<open>thrown by the runtime: property of \<open>undefined\<close>, \<open>reduce\<close> of an empty array\<close>
  | ArgumentsFormat       \<comment> \<open>\<open>Error("Arguments should be in 2-dimensional array format")\<close>\<close>
  | ColumnsRowsMismatch   \<comment> \<open>\<open>Error("Number of columns in the first matrix should be the same as ...")\<close>\<close>
  | VectorsLength         \<comment> \<open>\<open>Error("Vectors do not have same length")\<close>\<close>

datatype 'a result = Threw error | NonReal | Returned 'a

definition bindR :: "'a result \<Rightarrow> ('a \<Rightarrow> 'b result) \<Rightarrow> 'b result" where
  "bindR r f = (case r of Threw e \<Rightarrow> Threw e | NonReal \<Rightarrow> NonReal | Returned x \<Rightarrow> f x)"

text \<open>The items yielded by a sequence of loop iterations, up to the first one that throws.\<close>

fun concatR :: "'a list result list \<Rightarrow> 'a list result" where
  "concatR [] = Returned []"
| "concatR (r # rs) = bindR r (\<lambda>xs. bindR (concatR rs) (\<lambda>ys. Returned (xs @ ys)))"

text \<open>The same where an iteration may also run forever (\<open>None\<close>).\<close>

fun concatRO :: "'a list result option list \<Rightarrow> 'a list result option" where
  "concatRO [] = Some (Returned [])"
| "concatRO (r # rs) =
     (case r of
        None \<Rightarrow> None
      | Some (Returned xs) \<Rightarrow>
          (case concatRO rs of
             Some (Returned ys) \<Rightarrow> Some (Returned (xs @ ys))
           | other \<Rightarrow> other)
      | Some other \<Rightarrow> Some other)"

definition nth_opt :: "'a list \<Rightarrow> nat \<Rightarrow> 'a option" where
  "nth_opt xs i = (if i < length xs then Some (xs ! i) else None)"

section \<open>Built-ins of the language\<close>

definition digitChar :: "nat \<Rightarrow> char" where
  "digitChar d = ''0123456789abcdefghijklmnopqrstuvwxyz'' ! d"

text \<open>\<open>n.toString(radix)\<close> for a non-negative integer \<open>n\<close>.\<close>

fun toStringRadix :: "nat \<Rightarrow> nat \<Rightarrow> string" where
  "toStringRadix radix n =
     (if n < radix \<or> radix < 2 then [digitChar n]
      else toStringRadix radix (n div radix) @ [digitChar (n mod radix)])"

declare toStringRadix.simps [simp del]

text \<open>\<open>s.padStart(targetLength, c)\<close> with a one-character filler.\<close>

definition padStart :: "nat \<Rightarrow> char \<Rightarrow> string \<Rightarrow> string" where
  "padStart targetLength c s = replicate (targetLength - length s) c @ s"

text \<open>The key that \<open>for (const i in array)\<close> binds for index \<open>i\<close>: its decimal string.\<close>

definition key :: "nat \<Rightarrow> string" where
  "key i = toStringRadix 10 i"

text \<open>\<open>xs.reduce((x, y) => x + y)\<close>: no initial value, so an empty array throws.\<close>

fun reduce_add :: "nat list \<Rightarrow> nat result" where
  "reduce_add [] = Threw TypeError"
| "reduce_add (x # xs) = Returned (foldl (+) x xs)"

section \<open>global.js\<close>

record global =
  DIMENSIONS :: nat
  SPEED :: real
  SIZE :: real
  ROTATION_OFFSET :: real
  FAR_CLIPPING_PLANE :: real

definition imul :: "32 word \<Rightarrow> 32 word \<Rightarrow> 32 word" where
  "imul a b = a * b"

text \<open>
  \<open>hash(data, seed)\<close>. \<open>data\<close> is the string \<open>`${data}`\<close> as its UTF-16 code units, \<open>seed\<close>
  the 32-bit integer that \<open>^\<close> makes of the seed. \<open>output\<close> is below \<open>2^53\<close>, so the double
  holds it exactly; \<open>parseInt\<close> and \<open>Math.abs\<close> act on an integer.
\<close>

definition hash :: "16 word list \<Rightarrow> 32 word \<Rightarrow> string" where
  "hash data seed =
     (let h1 = 0xdeadbeef XOR seed;
          h2 = 0x41c6ce57 XOR seed;
          (h1, h2) = fold (\<lambda>ch (h1, h2).
                        (imul (h1 XOR ucast ch) 2654435761, imul (h2 XOR ucast ch) 1597334677))
                      data (h1, h2);
          h1 = imul (h1 XOR drop_bit 16 h1) 2246822507 XOR imul (h2 XOR drop_bit 13 h2) 3266489909;
          h2 = imul (h2 XOR drop_bit 16 h2) 2246822507 XOR imul (h1 XOR drop_bit 13 h1) 3266489909;
          output = 4294967296 * uint (2097151 AND h2) + uint h1
      in toStringRadix 16 (nat \<bar>output mod 256\<bar>))"

text \<open>\<open>"#" + hash(x) + hash(y) + hash(z)\<close>, the colour of \<open>drawEdges\<close> and \<open>drawVertices\<close>.\<close>

definition color :: "16 word list \<Rightarrow> 16 word list \<Rightarrow> 16 word list \<Rightarrow> string" where
  "color x y z = ''#'' @ hash x 0 @ hash y 0 @ hash z 0"

section \<open>matrix.js and point.js\<close>

definition init :: "nat \<Rightarrow> nat \<Rightarrow> real \<Rightarrow> real list list" where
  "init rows cols fillValue = replicate rows (replicate cols fillValue)"

text \<open>\<open>product[i][j] += x * y\<close>, where \<open>x\<close> or \<open>y\<close> may be \<open>undefined\<close> (\<open>None\<close>).\<close>

definition addProduct :: "real option \<Rightarrow> real option \<Rightarrow> real option \<Rightarrow> real option" where
  "addProduct acc x y =
     (case (acc, x, y) of (Some s, Some u, Some v) \<Rightarrow> Some (s + u * v) | _ \<Rightarrow> None)"

definition allReal :: "real option list list \<Rightarrow> real list list result" where
  "allReal m = (if list_all (list_all (\<lambda>x. x \<noteq> None)) m then Returned (map (map the) m) else NonReal)"

definition mul :: "real list list \<Rightarrow> real list list \<Rightarrow> real list list result" where
  "mul a b =
     (case a of [] \<Rightarrow> Threw TypeError | a0 # _ \<Rightarrow>
     (case b of [] \<Rightarrow> Threw TypeError | b0 # _ \<Rightarrow>
       (let aRows = length a; aCols = length a0;
            bRows = length b; bCols = length b0
        in if aCols = 0 \<or> aRows = 0 \<or> bCols = 0 \<or> bRows = 0 then Threw ArgumentsFormat
           else if aCols \<noteq> bRows then Threw ColumnsRowsMismatch
           else allReal (map (\<lambda>i. map (\<lambda>j.
                  fold (\<lambda>k acc. addProduct acc (nth_opt (a ! i) k) (nth_opt (b ! k) j))
                       [0..<aCols] (Some 0)) [0..<bCols]) [0..<aRows]))))"

definition toPoint :: "real list list \<Rightarrow> real list result" where
  "toPoint matrix = (if list_all (\<lambda>row. row \<noteq> []) matrix then Returned (map hd matrix) else NonReal)"

definition toMatrix :: "real list \<Rightarrow> real list list" where
  "toMatrix point = map (\<lambda>x. [x]) point"

section \<open>renderer.js\<close>

subsection \<open>Vertices\<close>

definition cubePointsGenerator :: "nat \<Rightarrow> real \<Rightarrow> real list list" where
  "cubePointsGenerator dimension size' =
     (let end = 2 ^ dimension in
      map (\<lambda>i. let binary = padStart (length (toStringRadix 2 end) - 1) CHR ''0'' (toStringRadix 2 i)
                in map (\<lambda>x. x * size' / 2) (map (\<lambda>x. if x = CHR ''0'' then - 1 else 1) binary))
          [0..<end])"

subsection \<open>Edges and faces\<close>

text \<open>
  \<open>a.map((_, ii) => a[ii] === b[ii] ? 1 : 0).reduce((x, y) => x + y)\<close>; an index past the
  end of \<open>b\<close> reads \<open>undefined\<close>, which equals no number.
\<close>

definition matches :: "'a list \<Rightarrow> 'a list \<Rightarrow> nat result" where
  "matches a b =
     reduce_add (map (\<lambda>ii. if ii < length b \<and> a ! ii = b ! ii then 1 else 0) [0..<length a])"

text \<open>
  \<open>a === b\<close> compares the two array objects: the points of \<open>cubePoints\<close> are separate
  arrays, so it holds exactly for \<open>i = j\<close>.
\<close>

definition edgeGenerator :: "nat \<Rightarrow> 'a list list \<Rightarrow> (nat \<times> nat) list result" where
  "edgeGenerator dimension cubePoints =
     concatR (map (\<lambda>i. concatR (map (\<lambda>j.
        let a = cubePoints ! i; b = cubePoints ! j
        in if i = j then Returned []
           else if length a \<noteq> length b then Threw VectorsLength
           else bindR (matches a b) (\<lambda>matches'.
                  if int matches' \<noteq> int dimension - 1 then Returned [] else Returned [(i, j)]))
        [0..<length cubePoints])) [0..<length cubePoints])"

definition matchesEvery :: "'a list list \<Rightarrow> nat result" where
  "matchesEvery facePoints =
     reduce_add (map (\<lambda>ii. if list_all (\<lambda>p. ii < length p \<and> (facePoints ! 0) ! ii = p ! ii) facePoints
                            then 1 else 0)
                     [0..<length (facePoints ! 0)])"

text \<open>\<open>cubePoints[x]\<close> and \<open>cubePoints[y]\<close> compared; reading past \<open>cubePoints\<close> throws.\<close>

definition matchesAt :: "'a list list \<Rightarrow> nat \<Rightarrow> nat \<Rightarrow> nat result" where
  "matchesAt cubePoints x y =
     (if x < length cubePoints \<and> y < length cubePoints
      then matches (cubePoints ! x) (cubePoints ! y) else Threw TypeError)"

text \<open>The \<open>while (faceIndices.length != 4)\<close> loop of \<open>faceGenerator\<close>.\<close>

partial_function (option)
  orderLoop :: "nat \<Rightarrow> 'a list list \<Rightarrow> nat list \<Rightarrow> nat list \<Rightarrow> nat list result option"
where
  "orderLoop dimension cubePoints faceIndices rest =
     (if length faceIndices = 4 then Some (Returned faceIndices)
      else if faceIndices = [] \<or> rest = [] then Some (Threw TypeError)
      else (case matchesAt cubePoints (last faceIndices) (hd rest) of
              Threw e \<Rightarrow> Some (Threw e)
            | NonReal \<Rightarrow> Some NonReal
            | Returned matches' \<Rightarrow>
                if int matches' \<noteq> int dimension - 1
                then orderLoop dimension cubePoints faceIndices (tl rest @ [hd rest])
                else orderLoop dimension cubePoints (faceIndices @ [hd rest]) (tl rest)))"

declare orderLoop.simps [code]

definition faceCandidate :: "nat \<Rightarrow> 'a list list \<Rightarrow> nat \<Rightarrow> nat \<Rightarrow> nat \<Rightarrow> nat \<Rightarrow> nat list list result option" where
  "faceCandidate dimension cubePoints i j k l =
     (let facePoints = [cubePoints ! i, cubePoints ! j, cubePoints ! k, cubePoints ! l]
      in case matchesEvery facePoints of
           Threw e \<Rightarrow> Some (Threw e)
         | NonReal \<Rightarrow> Some NonReal
         | Returned matches' \<Rightarrow>
             if int matches' \<noteq> int dimension - 2 then Some (Returned [])
             else (case orderLoop dimension cubePoints [i] [j, k, l] of
                     None \<Rightarrow> None
                   | Some (Returned faceIndices) \<Rightarrow> Some (Returned [faceIndices])
                   | Some (Threw e) \<Rightarrow> Some (Threw e)
                   | Some NonReal \<Rightarrow> Some NonReal))"

text \<open>
  The loop variables are the keys of \<open>for ... in\<close>, which are strings: \<open>i >= j\<close> compares
  the decimal strings of the two indices, character by character. \<open>keys ! i\<close> is the key of
  index \<open>i\<close>.
\<close>

definition faceGenerator :: "nat \<Rightarrow> 'a list list \<Rightarrow> nat list list result option" where
  "faceGenerator dimension cubePoints =
     (let n = length cubePoints; keys = map key [0..<n]
      in concatRO (map (\<lambda>i.
           concatRO (map (\<lambda>j. if keys ! i \<ge> keys ! j then Some (Returned []) else
             concatRO (map (\<lambda>k. if keys ! j \<ge> keys ! k then Some (Returned []) else
               concatRO (map (\<lambda>l. if keys ! k \<ge> keys ! l then Some (Returned []) else
                 faceCandidate dimension cubePoints i j k l) [0..<n])) [0..<n])) [0..<n])) [0..<n]))"

subsection \<open>Rotation\<close>

text \<open>\<open>matrix[r][c] = v\<close> for a row and a column that exist.\<close>

definition setEntry :: "real list list \<Rightarrow> nat \<Rightarrow> nat \<Rightarrow> real \<Rightarrow> real list list" where
  "setEntry matrix r c v = matrix[r := (matrix ! r)[c := v]]"

text \<open>The closure that \<open>rotationsGenerator\<close> yields for the plane \<open>(i, j)\<close>.\<close>

definition rotation :: "nat \<Rightarrow> nat \<Rightarrow> nat \<Rightarrow> real \<Rightarrow> real list list" where
  "rotation dimension i j theta =
     (let matrix = init dimension dimension 0;
          matrix = fold (\<lambda>k matrix. setEntry matrix k k 1) [0..<dimension] matrix;
          matrix = setEntry matrix i i (cos theta);
          matrix = setEntry matrix i j (- sin theta);
          matrix = setEntry matrix j i (sin theta);
          matrix = setEntry matrix j j (cos theta)
      in matrix)"

definition rotationsGenerator :: "nat \<Rightarrow> (real \<Rightarrow> real list list) list" where
  "rotationsGenerator dimension =
     concat (map (\<lambda>i. map (\<lambda>j. rotation dimension i j) [i + 1..<dimension]) [0..<dimension - 1])"

text \<open>
  The \<open>for (const rotation of memo)\<close> loop; its state is \<open>pointMatrix\<close> and \<open>multiplier\<close>.
  \<open>rotationLength\<close> is zero only for a dimension below 2, where \<open>memo\<close> is empty.
\<close>

fun rotateLoop :: "real \<Rightarrow> real \<Rightarrow> real \<Rightarrow> (real \<Rightarrow> real list list) list
    \<Rightarrow> real list list \<Rightarrow> real \<Rightarrow> real list list result" where
  "rotateLoop offset rotationLength theta [] pointMatrix multiplier = Returned pointMatrix"
| "rotateLoop offset rotationLength theta (rotation' # memo) pointMatrix multiplier =
     (let r = (if offset \<noteq> 0 then rotation' (theta * multiplier) else rotation' theta)
      in bindR (mul r pointMatrix) (\<lambda>pointMatrix.
           rotateLoop offset rotationLength theta memo pointMatrix
             (multiplier + offset / rotationLength)))"

text \<open>
  One iteration of \<open>transformGenerator\<close>; \<open>elapsed\<close> is \<open>getSeconds() - start\<close> as read in
  that iteration.
\<close>

definition transformPoint :: "global \<Rightarrow> real \<Rightarrow> real list \<Rightarrow> real list result" where
  "transformPoint G elapsed point =
     (let rotationLength = real (DIMENSIONS G) * (real (DIMENSIONS G) - 1) / 2;
          pointMatrix = toMatrix point;
          theta = elapsed * SPEED G * (pi / 180);
          multiplier = 1;
          memo = rotationsGenerator (DIMENSIONS G)
      in bindR (rotateLoop (ROTATION_OFFSET G) rotationLength theta memo pointMatrix multiplier)
           toPoint)"

subsection \<open>Projection\<close>

text \<open>
  The loop \<open>for (let i = point.length - 1; i > 1; i--)\<close> of \<open>projectionGenerator\<close>, with
  \<open>len = point.length\<close>. A zero divisor makes \<open>r\<close> infinite or \<open>NaN\<close>.
\<close>

fun projectLoop :: "real \<Rightarrow> nat \<Rightarrow> real list \<Rightarrow> nat \<Rightarrow> real list result" where
  "projectLoop far len newPoint i =
     (if i > 1 then
        (case nth_opt newPoint i of
           None \<Rightarrow> NonReal
         | Some n \<Rightarrow>
             if far - n = 0 then NonReal
             else
               let r = far / (far - n);
                   projectionMatrix = fold (\<lambda>j matrix. setEntry matrix j j r) [0..<len] (init len len 0);
                   pointMatrix = toMatrix newPoint
               in bindR (mul projectionMatrix pointMatrix) (\<lambda>newPointMatrix.
                  bindR (toPoint newPointMatrix) (\<lambda>newPoint.
                    projectLoop far len newPoint (i - 1))))
      else Returned newPoint)"

declare projectLoop.simps [simp del]

definition projectPoint :: "global \<Rightarrow> real list \<Rightarrow> real list result" where
  "projectPoint G point = projectLoop (FAR_CLIPPING_PLANE G) (length point) point (length point - 1)"

subsection \<open>Setup\<close>

text \<open>
  \<open>Renderer.setup\<close>. The module-private \<open>cubePoints\<close> is \<open>undefined\<close> (\<open>None\<close>) until \<open>setup\<close> assigns it; the
  canvas and the document are left out.
\<close>

record renderer =
  cubePoints :: "real list list option"

definition rendererSetup :: "global \<Rightarrow> renderer \<Rightarrow> renderer" where
  "rendererSetup G st = st\<lparr>cubePoints := Some (cubePointsGenerator (DIMENSIONS G) (SIZE G))\<rparr>"

section \<open>Notions used in the statements\<close>

text \<open>A matrix is rectangular when every row is as long as the first one.\<close>

definition rectangular :: "'a list list \<Rightarrow> bool" where
  "rectangular m = list_all (\<lambda>row. length row = length (hd m)) m"

text \<open>The UTF-16 code units of a string of ASCII characters.\<close>

definition codeUnits :: "string \<Rightarrow> 16 word list" where
  "codeUnits s = map of_char s"

text \<open>The binary digits of \<open>i\<close>, most significant first, on \<open>d\<close> places.\<close>

fun binStr :: "nat \<Rightarrow> nat \<Rightarrow> string" where
  "binStr 0 i = []"
| "binStr (Suc d) i = binStr d (i div 2) @ [digitChar (i mod 2)]"

text \<open>The coordinate that \<open>cubePointsGenerator\<close> makes of a binary digit.\<close>

definition coordinate :: "real \<Rightarrow> char \<Rightarrow> real" where
  "coordinate s x = (if x = CHR ''0'' then - 1 else 1) * s / 2"

text \<open>
  The number of coordinates at which two points agree, and at which they differ (for points
  of equal length).
\<close>

definition agreeing :: "'a list \<Rightarrow> 'a list \<Rightarrow> nat" where
  "agreeing a b = length (filter (\<lambda>k. k < length b \<and> a ! k = b ! k) [0..<length a])"

definition differing :: "'a list \<Rightarrow> 'a list \<Rightarrow> nat" where
  "differing a b = length (filter (\<lambda>k. a ! k \<noteq> b ! k) [0..<length a])"

text \<open>A square matrix of size \<open>n\<close>, as \<open>Matrix.init(n, n)\<close> builds it.\<close>

definition square :: "nat \<Rightarrow> real list list \<Rightarrow> bool" where
  "square n m \<longleftrightarrow> length m = n \<and> list_all (\<lambda>row. length row = n) m"

text \<open>
  The projection loop on points, without matrices: for the axis \<open>i\<close> from the last down
  to 2, every coordinate of the working point is multiplied by \<open>r = far / (far - w[i])\<close>.
\<close>

fun projectSteps :: "real \<Rightarrow> real list \<Rightarrow> nat \<Rightarrow> real list result" where
  "projectSteps far w i =
     (if 1 < i then
        (if far - w ! i = 0 then NonReal
         else projectSteps far (map (\<lambda>x. far / (far - w ! i) * x) w) (i - 1))
      else Returned w)"

declare projectSteps.simps [simp del]

text \<open>
  The projection loop as the specification words it: at axis \<open>i\<close> the working point is
  first restricted to its first \<open>i\<close> coordinates.
\<close>

fun projectRestricted :: "real \<Rightarrow> real list \<Rightarrow> nat \<Rightarrow> real list result" where
  "projectRestricted far w i =
     (if 1 < i then
        (if far - w ! i = 0 then NonReal
         else projectRestricted far (map (\<lambda>x. far / (far - w ! i) * x) (take i w)) (i - 1))
      else Returned w)"

declare projectRestricted.simps [simp del]

text \<open>
  The rotation planes \<open>(i, j)\<close>: \<open>i\<close> ascending from 0 to \<open>d - 2\<close>, and for each \<open>i\<close>, \<open>j\<close>
  ascending from \<open>i + 1\<close> to \<open>d - 1\<close>.
\<close>

definition planes :: "nat \<Rightarrow> (nat \<times> nat) list" where
  "planes d = concat (map (\<lambda>i. map (Pair i) [i + 1..<d]) [0..<d - 1])"

text \<open>
  The entry \<open>(a, b)\<close> of the elementary rotation by \<open>theta\<close> in the plane \<open>p = (i, j)\<close>: the
  identity except \<open>[i][i] = [j][j] = cos theta\<close>, \<open>[i][j] = - sin theta\<close>, \<open>[j][i] = sin theta\<close>.
\<close>

definition planeRotation :: "nat \<times> nat \<Rightarrow> real \<Rightarrow> nat \<Rightarrow> nat \<Rightarrow> real" where
  "planeRotation p theta a b =
     (if (a = fst p \<and> b = fst p) \<or> (a = snd p \<and> b = snd p) then cos theta
      else if a = fst p \<and> b = snd p then - sin theta
      else if a = snd p \<and> b = fst p then sin theta
      else if a = b then 1 else 0)"

text \<open>The angle of plane number \<open>k\<close> of \<open>m\<close>.\<close>

definition planeAngle :: "real \<Rightarrow> real \<Rightarrow> nat \<Rightarrow> nat \<Rightarrow> real" where
  "planeAngle thetaBase offset m k =
     (if offset \<noteq> 0 then thetaBase * (1 + real k * offset / real m) else thetaBase)"

text \<open>Product of \<open>d \<times> d\<close> matrices given by their entries, and the identity.\<close>

definition matMul :: "nat \<Rightarrow> (nat \<Rightarrow> nat \<Rightarrow> real) \<Rightarrow> (nat \<Rightarrow> nat \<Rightarrow> real) \<Rightarrow> nat \<Rightarrow> nat \<Rightarrow> real" where
  "matMul d A B = (\<lambda>a b. \<Sum>k<d. A a k * B k b)"

definition identity :: "nat \<Rightarrow> nat \<Rightarrow> real" where
  "identity a b = (if a = b then 1 else 0)"

text \<open>\<open>productOf d [R\<^sub>0, ..., R\<^sub>n]\<close> is the product \<open>R\<^sub>n * ... * R\<^sub>0\<close>.\<close>

fun productOf :: "nat \<Rightarrow> (nat \<Rightarrow> nat \<Rightarrow> real) list \<Rightarrow> nat \<Rightarrow> nat \<Rightarrow> real" where
  "productOf d [] = identity"
| "productOf d (R # Rs) = matMul d (productOf d Rs) R"

text \<open>The composed rotation \<open>R\<^sub>m\<^sub>-\<^sub>1(theta\<^sub>m\<^sub>-\<^sub>1) * ... * R\<^sub>0(theta\<^sub>0)\<close> over all planes.\<close>

definition composedRotation :: "nat \<Rightarrow> real \<Rightarrow> real \<Rightarrow> nat \<Rightarrow> nat \<Rightarrow> real" where
  "composedRotation d thetaBase offset =
     productOf d (map (\<lambda>(k, p). planeRotation p (planeAngle thetaBase offset (length (planes d)) k))
                      (enumerate 0 (planes d)))"

text \<open>
  The plane rotations applied to a point one after the other, with the multiplier of the
  loop in \<open>transformGenerator\<close>.
\<close>

fun applyPlanes :: "nat \<Rightarrow> real \<Rightarrow> real \<Rightarrow> real \<Rightarrow> (nat \<times> nat) list \<Rightarrow> real list \<Rightarrow> real \<Rightarrow> real list" where
  "applyPlanes d offset rotationLength theta [] v multiplier = v"
| "applyPlanes d offset rotationLength theta (p # ps) v multiplier =
     applyPlanes d offset rotationLength theta ps
       (map (\<lambda>a. \<Sum>b<d. planeRotation p (if offset \<noteq> 0 then theta * multiplier else theta) a b * v ! b) [0..<d])
       (multiplier + offset / rotationLength)"

section \<open>Matrix multiplication\<close>

lemma fold_addProduct:
  assumes "m \<le> length r" and "\<forall>k<m. j < length (b ! k)"
  shows "fold (\<lambda>k acc. addProduct acc (nth_opt r k) (nth_opt (b ! k) j)) [0..<m] (Some s)
         = Some (s + (\<Sum>k<m. r ! k * b ! k ! j))"
  using assms
proof (induction m)
  case 0
  show ?case by simp
next
  case (Suc m)
  then show ?case by (simp add: addProduct_def nth_opt_def)
qed

lemma allReal_Some:
  "allReal (map (\<lambda>i. map (\<lambda>j. Some (f i j)) js) is) = Returned (map (\<lambda>i. map (\<lambda>j. f i j) js) is)"
  by (simp add: allReal_def list_all_iff comp_def)

lemma mul_nonempty:
  "a \<noteq> [] \<Longrightarrow> b \<noteq> [] \<Longrightarrow> length (hd a) = length b \<Longrightarrow> hd a \<noteq> [] \<Longrightarrow> hd b \<noteq> [] \<Longrightarrow>
   mul a b = allReal (map (\<lambda>i. map (\<lambda>j.
                  fold (\<lambda>k acc. addProduct acc (nth_opt (a ! i) k) (nth_opt (b ! k) j))
                       [0..<length (hd a)] (Some 0)) [0..<length (hd b)]) [0..<length a])"
  by (cases a; cases b) (simp_all add: mul_def del: upt_Suc)

lemma mul_rect:
  assumes a: "a \<noteq> []" "\<forall>r\<in>set a. length r = c" and c: "0 < c"
    and b: "length b = c" "\<forall>r\<in>set b. length r = n" and n: "0 < n"
  shows "mul a b = Returned (map (\<lambda>i. map (\<lambda>j. \<Sum>k<c. a ! i ! k * b ! k ! j) [0..<n]) [0..<length a])"
proof -
  have bne: "b \<noteq> []" using b c by auto
  have la: "length (hd a) = c" using a by (cases a) auto
  have lb: "length (hd b) = n" using b bne by (cases b) auto
  have e: "fold (\<lambda>k acc. addProduct acc (nth_opt (a ! i) k) (nth_opt (b ! k) j)) [0..<c] (Some 0)
         = Some (\<Sum>k<c. a ! i ! k * b ! k ! j)" if "i < length a" "j < n" for i j
    using fold_addProduct [of c "a ! i" j b 0] that a b by simp
  have eq: "map (\<lambda>i. map (\<lambda>j. fold (\<lambda>k acc. addProduct acc (nth_opt (a ! i) k) (nth_opt (b ! k) j))
                [0..<c] (Some 0)) [0..<n]) [0..<length a]
      = map (\<lambda>i. map (\<lambda>j. Some (\<Sum>k<c. a ! i ! k * b ! k ! j)) [0..<n]) [0..<length a]"
    using e by simp
  have "mul a b = allReal (map (\<lambda>i. map (\<lambda>j.
                  fold (\<lambda>k acc. addProduct acc (nth_opt (a ! i) k) (nth_opt (b ! k) j))
                       [0..<c] (Some 0)) [0..<n]) [0..<length a])"
    using mul_nonempty [of a b] a(1) bne la lb b(1) c n by auto
  then show ?thesis
    by (simp only: eq allReal_Some)
qed

lemma rectangular_rows: "rectangular m \<Longrightarrow> r \<in> set m \<Longrightarrow> length r = length (hd m)"
  unfolding rectangular_def list_all_iff by blast

lemma mul_Threw_iff:
  "(\<exists>e. mul a b = Threw e) \<longleftrightarrow>
     a = [] \<or> b = [] \<or> hd a = [] \<or> hd b = [] \<or> length (hd a) \<noteq> length b"
  by (cases a; cases b) (auto simp: mul_def allReal_def Let_def)

text \<open>
  C7, as the specification states it, fails: \<open>mul\<close> never checks that its arguments are
  rectangular. The first argument below has rows of lengths 2 and 1; \<open>mul\<close> throws nothing
  and returns a matrix with a \<open>NaN\<close> entry (\<open>3 * 1 + undefined * 1\<close>).
\<close>

theorem mul_ragged_counterexample:
  "\<not> rectangular [[1, 2], [3 :: real]] \<and> mul [[1, 2], [3]] [[1], [1]] = NonReal"
  by (simp add: rectangular_def mul_def allReal_def addProduct_def nth_opt_def)

text \<open>
  C7, amended: \<open>mul a b\<close> throws exactly when an argument has no row, the first row of an
  argument is empty, or the length of the first row of \<open>a\<close> differs from the number of rows
  of \<open>b\<close>. For non-empty rectangular arguments of matching shape it returns the
  \<open>rows(a) \<times> cols(b)\<close> matrix whose entry \<open>(i, j)\<close> is the sum over \<open>k\<close> of
  \<open>a[i][k] * b[k][j]\<close>. Rectangularity itself is not checked.
\<close>

theorem mul_shape_and_product:
  "((\<exists>e. mul a b = Threw e) \<longleftrightarrow>
       a = [] \<or> b = [] \<or> hd a = [] \<or> hd b = [] \<or> length (hd a) \<noteq> length b)
   \<and> (a \<noteq> [] \<and> b \<noteq> [] \<and> hd a \<noteq> [] \<and> hd b \<noteq> [] \<and> rectangular a \<and> rectangular b
        \<and> length (hd a) = length b \<longrightarrow>
      mul a b = Returned (map (\<lambda>i. map (\<lambda>j. \<Sum>k<length b. a ! i ! k * b ! k ! j)
                                       [0..<length (hd b)]) [0..<length a]))"
proof (intro conjI impI)
  show "(\<exists>e. mul a b = Threw e) \<longleftrightarrow>
       a = [] \<or> b = [] \<or> hd a = [] \<or> hd b = [] \<or> length (hd a) \<noteq> length b"
    by (rule mul_Threw_iff)
next
  assume h: "a \<noteq> [] \<and> b \<noteq> [] \<and> hd a \<noteq> [] \<and> hd b \<noteq> [] \<and> rectangular a \<and> rectangular b
        \<and> length (hd a) = length b"
  have ra: "\<forall>r\<in>set a. length r = length b"
    using h rectangular_rows [of a] by metis
  have rb: "\<forall>r\<in>set b. length r = length (hd b)"
    using h rectangular_rows [of b] by blast
  have "0 < length b" "0 < length (hd b)" using h by blast+
  with ra rb show "mul a b = Returned (map (\<lambda>i. map (\<lambda>j. \<Sum>k<length b. a ! i ! k * b ! k ! j)
                                       [0..<length (hd b)]) [0..<length a])"
    using h mul_rect [of a "length b" b "length (hd b)"] by blast
qed

theorem mul_shape_and_product_witness:
  "rectangular [[1, 2], [3, 4 :: real]] \<and> rectangular [[1], [1 :: real]]
   \<and> mul [[1, 2], [3, 4]] [[1], [1]] = Returned [[3], [7]]"
  using mul_shape_and_product [of "[[1, 2], [3, 4]]" "[[1], [1]]"]
  by (simp add: rectangular_def)

section \<open>The colour hash\<close>

lemma toStringRadix16_length:
  assumes n: "n < 256"
  shows "length (toStringRadix 16 n) = (if n < 16 then 1 else 2)"
proof -
  have "n div 16 < 16" using n by simp
  then have "toStringRadix 16 (n div 16) = [digitChar (n div 16)]"
    by (simp add: toStringRadix.simps [of 16 "n div 16"])
  then show ?thesis
    by (simp add: toStringRadix.simps [of 16 n])
qed

lemma hash_byte: "\<exists>n<256. hash data seed = toStringRadix 16 n"
proof -
  have "nat \<bar>x mod 256\<bar> < 256" for x :: int
    by (simp add: abs_if nat_less_iff)
  then show ?thesis
    unfolding hash_def Let_def by (auto split: prod.splits)
qed

lemma color_short: "color (codeUnits ''0.8'') (codeUnits ''810'') (codeUnits ''80'') = ''#6fad9''"
  by code_simp

text \<open>
  C10: \<open>hash\<close> returns the base-16 string, without padding, of an integer from 0 to 255,
  so one or two characters. A colour built from three hashes can therefore be shorter than
  \<open>#\<close> and six digits: the edge with the keys \<open>"8"\<close> and \<open>"10"\<close> of the 4-cube is drawn with
  \<open>"#" + hash(0.8) + hash("810") + hash(80)\<close>, which has five digits. Equal arguments give
  equal results.
\<close>

theorem hash_hex_byte:
  "(\<exists>n<256. hash data seed = toStringRadix 16 n
        \<and> length (hash data seed) = (if n < 16 then 1 else 2))
   \<and> length (color (codeUnits ''0.8'') (codeUnits ''810'') (codeUnits ''80'')) < 7
   \<and> (data = data' \<and> seed = seed' \<longrightarrow> hash data seed = hash data' seed')"
proof -
  obtain n where n: "n < 256" "hash data seed = toStringRadix 16 n"
    using hash_byte by blast
  then have "length (hash data seed) = (if n < 16 then 1 else 2)"
    using toStringRadix16_length by simp
  with n show ?thesis
    by (auto simp: color_short)
qed

theorem hash_hex_byte_witness:
  "(\<exists>n<256. hash (codeUnits ''80'') 0 = toStringRadix 16 n
        \<and> length (hash (codeUnits ''80'') 0) = (if n < 16 then 1 else 2))
   \<and> hash (codeUnits ''80'') 0 = hash (codeUnits ''80'') 0"
  using hash_hex_byte [of "codeUnits ''80''" 0 "codeUnits ''80''" 0] by simp

section \<open>Setup\<close>

text \<open>
  C6 holds of the intended behaviour and not of the code: \<open>setup\<close> of renderer.js checks
  nothing, and with one dimension configured it completes and stores the two points of a
  segment. (The earlier \<open>setup\<close>, whose message is "Dimension must be positive integer
  greater than 1", only compares the dimension with its \<open>parseInt\<close>, which 0 and 1 pass.)
\<close>

theorem setup_accepts_dimension_one:
  "rendererSetup \<lparr>DIMENSIONS = 1, SPEED = 30, SIZE = 300, ROTATION_OFFSET = 1,
                   FAR_CLIPPING_PLANE = 1000\<rparr> \<lparr>cubePoints = None\<rparr>
   = \<lparr>cubePoints = Some [[- 150], [150]]\<rparr>"
  by code_simp

section \<open>Vertices\<close>

lemma digitChar_01 [simp]: "digitChar 0 = CHR ''0''" "digitChar (Suc 0) = CHR ''1''"
  by (simp_all add: digitChar_def)

lemma toStringRadix2_small: "n < 2 \<Longrightarrow> toStringRadix 2 n = [digitChar n]"
  by (simp add: toStringRadix.simps [of 2 n])

lemma toStringRadix2_step: "2 \<le> n \<Longrightarrow> toStringRadix 2 n = toStringRadix 2 (n div 2) @ [digitChar (n mod 2)]"
  by (simp add: toStringRadix.simps [of 2 n])

lemma toStringRadix2_pow: "toStringRadix 2 (2 ^ d) = CHR ''1'' # replicate d CHR ''0''"
proof (induction d)
  case 0
  show ?case by (simp add: toStringRadix2_small)
next
  case (Suc d)
  have "toStringRadix 2 (2 ^ Suc d) = toStringRadix 2 (2 ^ d) @ [digitChar 0]"
    using toStringRadix2_step [of "2 ^ Suc d"] by simp
  then show ?case using Suc by (simp add: replicate_append_same)
qed

lemma length_binStr [simp]: "length (binStr d i) = d"
  by (induction d arbitrary: i) simp_all

lemma binStr_zero: "binStr d 0 = replicate d CHR ''0''"
  by (induction d) (simp_all add: replicate_append_same)

lemma padStart_binary: "i < 2 ^ Suc d \<Longrightarrow> padStart (Suc d) CHR ''0'' (toStringRadix 2 i) = binStr (Suc d) i"
proof (induction d arbitrary: i)
  case 0
  then have "i < 2" by simp
  then show ?case by (simp add: toStringRadix2_small padStart_def)
next
  case (Suc d)
  show ?case
  proof (cases "i < 2")
    case True
    then have "i div 2 = 0" "i mod 2 = i" by simp_all
    then show ?thesis using True
      by (simp add: toStringRadix2_small padStart_def binStr_zero replicate_append_same)
  next
    case False
    then have i2: "2 \<le> i" by simp
    have "i div 2 < 2 ^ Suc d" using Suc.prems by simp
    then have ih: "padStart (Suc d) CHR ''0'' (toStringRadix 2 (i div 2)) = binStr (Suc d) (i div 2)"
      by (rule Suc.IH)
    have "padStart (Suc (Suc d)) CHR ''0'' (toStringRadix 2 i)
        = padStart (Suc d) CHR ''0'' (toStringRadix 2 (i div 2)) @ [digitChar (i mod 2)]"
      by (simp add: toStringRadix2_step [OF i2] padStart_def)
    then show ?thesis using ih by simp
  qed
qed

lemma binStr_nth: "k < d \<Longrightarrow> binStr d i ! k = (if bit i (d - 1 - k) then CHR ''1'' else CHR ''0'')"
proof (induction d arbitrary: i k)
  case 0
  then show ?case by simp
next
  case (Suc d)
  show ?case
  proof (cases "k < d")
    case True
    then have "d - k = Suc (d - 1 - k)" by simp
    then have "bit i (d - k) = bit (i div 2) (d - 1 - k)" by (simp add: bit_Suc)
    then show ?thesis using True Suc.IH [of k "i div 2"] by (simp add: nth_append)
  next
    case False
    then have "k = d" using Suc.prems by simp
    then show ?thesis by (cases "odd i") (auto simp: nth_append bit_0 odd_iff_mod_2_eq_one)
  qed
qed

lemma binStr_inj: "i < 2 ^ d \<Longrightarrow> j < 2 ^ d \<Longrightarrow> binStr d i = binStr d j \<Longrightarrow> i = j"
proof (induction d arbitrary: i j)
  case 0
  then show ?case by simp
next
  case (Suc d)
  have "binStr d (i div 2) = binStr d (j div 2)" "digitChar (i mod 2) = digitChar (j mod 2)"
    using Suc.prems(3) by simp_all
  moreover have "i div 2 < 2 ^ d" "j div 2 < 2 ^ d" using Suc.prems by simp_all
  ultimately have "i div 2 = j div 2" using Suc.IH by blast
  moreover have "i mod 2 = j mod 2"
    using \<open>digitChar (i mod 2) = digitChar (j mod 2)\<close>
    by (cases "i mod 2 = 0"; cases "j mod 2 = 0") (auto simp: not_mod_2_eq_0_eq_1)
  ultimately show ?case by (metis div_mult_mod_eq)
qed

lemma cubePoints_binStr:
  assumes "1 \<le> d"
  shows "cubePointsGenerator d s = map (\<lambda>i. map (coordinate s) (binStr d i)) [0..<2 ^ d]"
proof -
  obtain e where e: "d = Suc e" using assms by (cases d) auto
  have "length (toStringRadix 2 (2 ^ d)) - 1 = d" by (simp add: toStringRadix2_pow)
  then show ?thesis
    unfolding cubePointsGenerator_def Let_def coordinate_def
    by (simp add: e padStart_binary del: binStr.simps upt_Suc power_Suc)
qed


lemma set_binStr: "set (binStr d i) \<subseteq> {CHR ''0'', CHR ''1''}"
proof (induction d arbitrary: i)
  case 0
  show ?case by simp
next
  case (Suc d)
  have "i mod 2 = 0 \<or> i mod 2 = Suc 0" by arith
  then have "digitChar (i mod 2) \<in> {CHR ''0'', CHR ''1''}" by auto
  then show ?case using Suc.IH [of "i div 2"] by simp
qed

lemma coordinate_inj: "s \<noteq> 0 \<Longrightarrow> inj_on (coordinate s) {CHR ''0'', CHR ''1''}"
  by (simp add: coordinate_def inj_on_def)

lemma coordinate_binStr_eq:
  assumes "s \<noteq> 0"
  shows "map (coordinate s) (binStr d i) = map (coordinate s) (binStr d j) \<longleftrightarrow> binStr d i = binStr d j"
proof -
  have "inj_on (coordinate s) (set (binStr d i) \<union> set (binStr d j))"
    using coordinate_inj [OF assms] set_binStr [of d i] set_binStr [of d j]
    by (meson Un_least inj_on_subset)
  then show ?thesis by (rule inj_on_map_eq_map)
qed

lemma cubePoints_distinct:
  assumes "1 \<le> d" "s \<noteq> 0"
  shows "distinct (cubePointsGenerator d s)"
proof -
  have "inj_on (\<lambda>i. map (coordinate s) (binStr d i)) (set [0..<2 ^ d])"
    using coordinate_binStr_eq [OF assms(2)] binStr_inj by (auto simp: inj_on_def)
  then show ?thesis
    by (simp add: cubePoints_binStr [OF assms(1)] distinct_map)
qed

lemma cubePoints_nth:
  assumes "1 \<le> d" "i < 2 ^ d"
  shows "cubePointsGenerator d s ! i = map (coordinate s) (binStr d i)"
  using assms by (simp add: cubePoints_binStr del: upt_Suc)

lemma cubePoints_length: "length (cubePointsGenerator d s) = 2 ^ d"
  by (simp add: cubePointsGenerator_def Let_def)

text \<open>
  C2, amended: for a dimension of at least 2 the generator yields \<open>2^d\<close> points of \<open>d\<close>
  coordinates; coordinate \<open>k\<close> of point \<open>i\<close> is \<open>+s/2\<close> when bit \<open>k\<close> of \<open>i\<close>, counted from
  the most significant of \<open>d\<close> bits, is 1, and \<open>-s/2\<close> when it is 0. The points are pairwise
  distinct when the size is not zero. Equal arguments give the same sequence.
\<close>

theorem cubePoints_vertices:
  assumes "2 \<le> d"
  shows "length (cubePointsGenerator d s) = 2 ^ d
       \<and> (\<forall>i<2 ^ d. length (cubePointsGenerator d s ! i) = d
            \<and> (\<forall>k<d. cubePointsGenerator d s ! i ! k
                        = (if bit i (d - 1 - k) then s / 2 else - (s / 2))))
       \<and> (s \<noteq> 0 \<longrightarrow> distinct (cubePointsGenerator d s))
       \<and> (d = d' \<and> s = s' \<longrightarrow> cubePointsGenerator d s = cubePointsGenerator d' s')"
proof -
  have d1: "1 \<le> d" using assms by simp
  have "cubePointsGenerator d s ! i ! k = (if bit i (d - 1 - k) then s / 2 else - (s / 2))"
    if "i < 2 ^ d" "k < d" for i k
    using that by (simp add: cubePoints_nth [OF d1] binStr_nth coordinate_def)
  moreover have "length (cubePointsGenerator d s ! i) = d" if "i < 2 ^ d" for i
    using that by (simp add: cubePoints_nth [OF d1])
  ultimately show ?thesis
    using cubePoints_distinct [OF d1] cubePoints_length by blast
qed

theorem cubePoints_vertices_witness:
  "(2 :: nat) \<le> 2 \<and> (2 :: real) \<noteq> 0 \<and> length (cubePointsGenerator 2 2) = 2 ^ 2
   \<and> distinct (cubePointsGenerator 2 2)"
  using cubePoints_vertices [of 2 2 2 2] by simp

text \<open>
  C2 as stated, for every size, fails at size 0: all four points of the square are then
  the origin (JavaScript has \<open>-0 === 0\<close>).
\<close>

theorem cubePoints_size_zero_counterexample: "\<not> distinct (cubePointsGenerator 2 0)"
  by code_simp

section \<open>Edges\<close>

lemma foldl_add: "foldl (+) x xs = x + sum_list xs" for x :: nat
  by (induction xs arbitrary: x) simp_all

lemma reduce_add_sum: "xs \<noteq> [] \<Longrightarrow> reduce_add xs = Returned (sum_list xs)"
  by (cases xs) (simp_all add: foldl_add)

lemma sum_list_indicator: "sum_list (map (\<lambda>k. if P k then 1 else 0) xs) = length (filter P xs)"
  by (induction xs) simp_all

lemma matches_agreeing: "a \<noteq> [] \<Longrightarrow> matches a b = Returned (agreeing a b)"
  by (simp add: matches_def agreeing_def reduce_add_sum sum_list_indicator)

lemma matches_empty: "matches [] b = Threw TypeError"
  by (simp add: matches_def)

lemma agreeing_differing:
  assumes "length a = length b"
  shows "agreeing a b + differing a b = length a"
proof -
  have "filter (\<lambda>k. a ! k \<noteq> b ! k) [0..<length a] = filter (\<lambda>k. \<not> (k < length b \<and> a ! k = b ! k)) [0..<length a]"
    using assms by (intro filter_cong) auto
  then show ?thesis
    unfolding agreeing_def differing_def
    using sum_length_filter_compl [of "\<lambda>k. k < length b \<and> a ! k = b ! k" "[0..<length a]"] by simp
qed

lemma agreeing_le: "agreeing a b \<le> length a"
  unfolding agreeing_def using length_filter_le [of _ "[0..<length a]"] by simp

lemma agreeing_snoc:
  assumes "length xs = length ys"
  shows "agreeing (xs @ [x]) (ys @ [y]) = agreeing xs ys + (if x = y then 1 else 0)"
proof -
  have "filter (\<lambda>k. k < length (ys @ [y]) \<and> (xs @ [x]) ! k = (ys @ [y]) ! k) [0..<length xs]
      = filter (\<lambda>k. k < length ys \<and> xs ! k = ys ! k) [0..<length xs]"
    using assms by (intro filter_cong) (auto simp: nth_append)
  then show ?thesis
    using assms by (simp add: agreeing_def nth_append)
qed

lemma agreeing_map:
  assumes "inj_on f (set xs \<union> set ys)"
  shows "agreeing (map f xs) (map f ys) = agreeing xs ys"
proof -
  have "filter (\<lambda>k. k < length (map f ys) \<and> map f xs ! k = map f ys ! k) [0..<length (map f xs)]
      = filter (\<lambda>k. k < length ys \<and> xs ! k = ys ! k) [0..<length xs]"
    using assms by (intro filter_cong) (auto simp: inj_on_def)
  then show ?thesis by (simp add: agreeing_def)
qed

lemma agreeing_binStr_Suc:
  "agreeing (binStr (Suc d) i) (binStr (Suc d) j)
   = agreeing (binStr d (i div 2)) (binStr d (j div 2)) + (if i mod 2 = j mod 2 then 1 else 0)"
proof -
  have "i mod 2 = 0 \<or> i mod 2 = Suc 0" "j mod 2 = 0 \<or> j mod 2 = Suc 0" by arith+
  then have "digitChar (i mod 2) = digitChar (j mod 2) \<longleftrightarrow> i mod 2 = j mod 2" by auto
  then show ?thesis by (simp add: agreeing_snoc)
qed

lemma agreeing_binStr_le: "agreeing (binStr d i) (binStr d j) \<le> d"
  using agreeing_le [of "binStr d i" "binStr d j"] by simp

lemma agreeing_binStr_full:
  "i < 2 ^ d \<Longrightarrow> j < 2 ^ d \<Longrightarrow> agreeing (binStr d i) (binStr d j) = d \<longleftrightarrow> i = j"
proof (induction d arbitrary: i j)
  case 0
  then show ?case by (simp add: agreeing_def)
next
  case (Suc d)
  have lt: "i div 2 < 2 ^ d" "j div 2 < 2 ^ d" using Suc.prems by simp_all
  have le: "agreeing (binStr d (i div 2)) (binStr d (j div 2)) \<le> d" by (rule agreeing_binStr_le)
  have "agreeing (binStr (Suc d) i) (binStr (Suc d) j) = Suc d
        \<longleftrightarrow> agreeing (binStr d (i div 2)) (binStr d (j div 2)) = d \<and> i mod 2 = j mod 2"
    using le by (auto simp: agreeing_binStr_Suc simp del: binStr.simps)
  also have "\<dots> \<longleftrightarrow> i div 2 = j div 2 \<and> i mod 2 = j mod 2"
    using Suc.IH [OF lt] by simp
  also have "\<dots> \<longleftrightarrow> i = j" by (metis div_mult_mod_eq)
  finally show ?case .
qed

lemma sum_double: "(\<Sum>j<2 * n. g j) = (\<Sum>j<n. g (2 * j) + g (2 * j + 1))" for g :: "nat \<Rightarrow> nat"
  by (induction n) simp_all

lemma length_filter_upt_sum: "length (filter P [0..<n]) = (\<Sum>j<n. if P j then 1 else 0)"
  by (induction n) simp_all

lemma neighbours_sum:
  "i < 2 ^ d \<Longrightarrow> (\<Sum>j<2 ^ d. if int (agreeing (binStr d i) (binStr d j)) = int d - 1 then 1 else 0) = d"
proof (induction d arbitrary: i)
  case 0
  then show ?case by (simp add: agreeing_def)
next
  case (Suc d)
  let ?A = "\<lambda>j. agreeing (binStr d (i div 2)) (binStr d j)"
  have lt: "i div 2 < 2 ^ d" using Suc.prems by simp
  have full: "(\<Sum>j<2 ^ d. if ?A j = d then 1 else 0) = (1::nat)"
  proof -
    have "(\<Sum>j<2 ^ d. if ?A j = d then 1 else 0) = (\<Sum>j<2 ^ d. if j = i div 2 then 1 else (0::nat))"
      using agreeing_binStr_full [OF lt] by (intro sum.cong) auto
    then show ?thesis using lt by simp
  qed
  have step: "(if int (agreeing (binStr (Suc d) i) (binStr (Suc d) (2 * j))) = int (Suc d) - 1 then 1 else 0)
            + (if int (agreeing (binStr (Suc d) i) (binStr (Suc d) (2 * j + 1))) = int (Suc d) - 1 then 1 else 0)
            = (if int (?A j) = int d - 1 then 1 else 0) + (if ?A j = d then 1 else (0::nat))" for j
  proof -
    have "i mod 2 = 0 \<or> i mod 2 = 1" by arith
    then show ?thesis
      by (auto simp: agreeing_binStr_Suc simp del: binStr.simps)
  qed
  have "(\<Sum>j<2 ^ Suc d. if int (agreeing (binStr (Suc d) i) (binStr (Suc d) j)) = int (Suc d) - 1 then 1 else 0)
      = (\<Sum>j<2 ^ d. (if int (?A j) = int d - 1 then 1 else 0) + (if ?A j = d then 1 else (0::nat)))"
    using sum_double [where n = "2 ^ d" and g = "\<lambda>j. if int (agreeing (binStr (Suc d) i) (binStr (Suc d) j)) = int (Suc d) - 1 then 1 else 0"]
    by (simp only: step power_Suc)
  also have "\<dots> = d + 1"
    using Suc.IH [OF lt] full by (simp add: sum.distrib)
  finally show ?case by simp
qed


lemma concatR_Returned: "concatR (map (\<lambda>x. Returned (f x)) xs) = Returned (concat (map f xs))"
  by (induction xs) (simp_all add: bindR_def)

lemma concat_if_singleton: "concat (map (\<lambda>j. if c j then [g j] else []) js) = map g (filter c js)"
  by (induction js) simp_all

lemma distinct_concat_Pair:
  "distinct is \<Longrightarrow> (\<And>i. distinct (g i)) \<Longrightarrow> distinct (concat (map (\<lambda>i. map (Pair i) (g i)) is))"
  by (induction "is") (auto simp: distinct_map inj_on_def)

lemma edgeGenerator_uniform:
  assumes len: "\<forall>p\<in>set P. length p = d" and d: "0 < d"
  shows "edgeGenerator dm P =
         Returned (concat (map (\<lambda>i. map (Pair i)
                     (filter (\<lambda>j. i \<noteq> j \<and> int (agreeing (P ! i) (P ! j)) = int dm - 1) [0..<length P]))
                   [0..<length P]))"
proof -
  let ?c = "\<lambda>i j. i \<noteq> j \<and> int (agreeing (P ! i) (P ! j)) = int dm - 1"
  have body: "(let a = P ! i; b = P ! j
        in if i = j then Returned []
           else if length a \<noteq> length b then Threw VectorsLength
           else bindR (matches a b) (\<lambda>matches'.
                  if int matches' \<noteq> int dm - 1 then Returned [] else Returned [(i, j)]))
        = Returned (if ?c i j then [(i, j)] else [])"
    if "i < length P" "j < length P" for i j
  proof -
    have "length (P ! i) = d" "length (P ! j) = d" using len that by simp_all
    moreover from this d have "P ! i \<noteq> []" by auto
    ultimately show ?thesis
      by (simp add: Let_def matches_agreeing bindR_def)
  qed
  have inner: "concatR (map (\<lambda>j. let a = P ! i; b = P ! j
        in if i = j then Returned []
           else if length a \<noteq> length b then Threw VectorsLength
           else bindR (matches a b) (\<lambda>matches'.
                  if int matches' \<noteq> int dm - 1 then Returned [] else Returned [(i, j)]))
        [0..<length P]) = Returned (map (Pair i) (filter (?c i) [0..<length P]))"
    if "i < length P" for i
  proof -
    have "map (\<lambda>j. let a = P ! i; b = P ! j
        in if i = j then Returned []
           else if length a \<noteq> length b then Threw VectorsLength
           else bindR (matches a b) (\<lambda>matches'.
                  if int matches' \<noteq> int dm - 1 then Returned [] else Returned [(i, j)]))
        [0..<length P] = map (\<lambda>j. Returned (if ?c i j then [(i, j)] else [])) [0..<length P]"
      using body [OF that] by simp
    then show ?thesis
      by (simp only: concatR_Returned concat_if_singleton)
  qed
  have "map (\<lambda>i. concatR (map (\<lambda>j. let a = P ! i; b = P ! j
        in if i = j then Returned []
           else if length a \<noteq> length b then Threw VectorsLength
           else bindR (matches a b) (\<lambda>matches'.
                  if int matches' \<noteq> int dm - 1 then Returned [] else Returned [(i, j)]))
        [0..<length P])) [0..<length P]
      = map (\<lambda>i. Returned (map (Pair i) (filter (?c i) [0..<length P]))) [0..<length P]"
    by (rule map_cong [OF refl], rule inner, simp)
  then show ?thesis
    unfolding edgeGenerator_def by (simp only: concatR_Returned)
qed

lemma differing_sym: "length a = length b \<Longrightarrow> differing a b = differing b a"
  unfolding differing_def by (auto intro!: arg_cong [where f = length] filter_cong)

lemma agreeing_cube:
  assumes "s \<noteq> 0"
  shows "agreeing (map (coordinate s) (binStr d i)) (map (coordinate s) (binStr d j))
       = agreeing (binStr d i) (binStr d j)"
proof -
  have "inj_on (coordinate s) (set (binStr d i) \<union> set (binStr d j))"
    using coordinate_inj [OF assms] set_binStr [of d i] set_binStr [of d j]
    by (meson Un_least inj_on_subset)
  then show ?thesis by (rule agreeing_map)
qed


lemma cubePoints_rows: "1 \<le> d \<Longrightarrow> \<forall>p\<in>set (cubePointsGenerator d s). length p = d"
  by (auto simp: cubePoints_binStr)

lemma cube_neighbours:
  assumes d: "1 \<le> d" and s: "s \<noteq> 0" and i: "i < 2 ^ d"
  shows "length (filter (\<lambda>j. i \<noteq> j \<and> int (agreeing (cubePointsGenerator d s ! i)
                                              (cubePointsGenerator d s ! j)) = int d - 1)
                  [0..<2 ^ d]) = d"
proof -
  have "filter (\<lambda>j. i \<noteq> j \<and> int (agreeing (cubePointsGenerator d s ! i)
                                              (cubePointsGenerator d s ! j)) = int d - 1) [0..<2 ^ d]
      = filter (\<lambda>j. int (agreeing (binStr d i) (binStr d j)) = int d - 1) [0..<2 ^ d]"
  proof (rule filter_cong [OF refl])
    fix j assume "j \<in> set [0..<2 ^ d]"
    then have j: "j < 2 ^ d" by simp
    have "agreeing (cubePointsGenerator d s ! i) (cubePointsGenerator d s ! j)
        = agreeing (binStr d i) (binStr d j)"
      by (simp only: cubePoints_nth [OF d i] cubePoints_nth [OF d j] agreeing_cube [OF s])
    moreover have "int (agreeing (binStr d i) (binStr d j)) \<noteq> int d - 1" if "i = j"
      using agreeing_binStr_full [OF i j] that by simp
    ultimately show "(i \<noteq> j \<and> int (agreeing (cubePointsGenerator d s ! i)
                                              (cubePointsGenerator d s ! j)) = int d - 1)
        = (int (agreeing (binStr d i) (binStr d j)) = int d - 1)"
      by auto
  qed
  then show ?thesis
    by (simp only: length_filter_upt_sum neighbours_sum [OF i])
qed

text \<open>
  C1, amended: for a dimension \<open>d\<close> of at least 2 the edge generator, applied to the base
  vertex set, emits exactly the ordered pairs \<open>(i, j)\<close>, \<open>i \<noteq> j\<close>, whose points differ in
  exactly one coordinate, each ordered pair once. With every pair it emits the reversed
  pair, so each edge of the cube is emitted twice, and for a size that is not zero the
  total is \<open>d * 2^d\<close> pairs.
\<close>

theorem edgeGenerator_ordered_pairs:
  assumes "2 \<le> d"
  shows "\<exists>es. edgeGenerator d (cubePointsGenerator d s) = Returned es
            \<and> distinct es
            \<and> set es = {(i, j). i < 2 ^ d \<and> j < 2 ^ d \<and> i \<noteq> j
                  \<and> differing (cubePointsGenerator d s ! i) (cubePointsGenerator d s ! j) = 1}
            \<and> (\<forall>i j. (i, j) \<in> set es \<longrightarrow> (j, i) \<in> set es)
            \<and> (s \<noteq> 0 \<longrightarrow> length es = d * 2 ^ d)"
proof -
  let ?P = "cubePointsGenerator d s"
  let ?c = "\<lambda>i j. i \<noteq> j \<and> int (agreeing (?P ! i) (?P ! j)) = int d - 1"
  let ?es = "concat (map (\<lambda>i. map (Pair i) (filter (?c i) [0..<2 ^ d])) [0..<2 ^ d])"
  have d1: "1 \<le> d" using assms by simp
  have len: "length (?P ! i) = d" if "i < 2 ^ d" for i
    using that by (simp add: cubePoints_nth [OF d1])
  have gen: "edgeGenerator d ?P = Returned ?es"
    using edgeGenerator_uniform [OF cubePoints_rows [OF d1], where s1 = s and dm = d] d1
    by (simp add: cubePoints_length)
  have dist: "distinct ?es"
    by (rule distinct_concat_Pair) simp_all
  have c_iff: "int (agreeing (?P ! i) (?P ! j)) = int d - 1 \<longleftrightarrow> differing (?P ! i) (?P ! j) = 1"
    if "i < 2 ^ d" "j < 2 ^ d" for i j
    using agreeing_differing [of "?P ! i" "?P ! j"] len [OF that(1)] len [OF that(2)] d1 by auto
  have "set ?es = {(i, j). i < 2 ^ d \<and> j < 2 ^ d \<and> ?c i j}"
    by auto
  also have "\<dots> = {(i, j). i < 2 ^ d \<and> j < 2 ^ d \<and> i \<noteq> j \<and> differing (?P ! i) (?P ! j) = 1}"
    using c_iff by blast
  finally have set_es:
    "set ?es = {(i, j). i < 2 ^ d \<and> j < 2 ^ d \<and> i \<noteq> j \<and> differing (?P ! i) (?P ! j) = 1}" .
  have sym: "\<forall>i j. (i, j) \<in> set ?es \<longrightarrow> (j, i) \<in> set ?es"
  proof (intro allI impI)
    fix i j assume "(i, j) \<in> set ?es"
    then have h: "i < 2 ^ d" "j < 2 ^ d" "i \<noteq> j" "differing (?P ! i) (?P ! j) = 1"
      unfolding set_es by auto
    then have "differing (?P ! j) (?P ! i) = 1"
      using differing_sym [of "?P ! i" "?P ! j"] len by simp
    with h show "(j, i) \<in> set ?es" unfolding set_es by auto
  qed
  have count: "length ?es = d * 2 ^ d" if s: "s \<noteq> 0"
  proof -
    have eq: "map (\<lambda>i. length (map (Pair i) (filter (?c i) [0..<2 ^ d]))) [0..<2 ^ d]
        = map (\<lambda>i. d) [0..<2 ^ d]"
      by (rule map_cong [OF refl]) (simp add: cube_neighbours [OF d1 s])
    have "length ?es = sum_list (map (\<lambda>i. length (map (Pair i) (filter (?c i) [0..<2 ^ d]))) [0..<2 ^ d])"
      by (simp only: length_concat map_map comp_def)
    also have "\<dots> = sum_list (map (\<lambda>i. d) [0..<2 ^ d])"
      by (simp only: eq)
    finally show ?thesis by (simp add: sum_list_triv)
  qed
  show ?thesis
    using gen dist set_es sym count by blast
qed

theorem edgeGenerator_ordered_pairs_witness:
  "(2 :: nat) \<le> 2 \<and> (2 :: real) \<noteq> 0
   \<and> (\<exists>es. edgeGenerator 2 (cubePointsGenerator 2 2) = Returned es \<and> distinct es
          \<and> length es = 2 * 2 ^ 2)"
  using edgeGenerator_ordered_pairs [of 2 2] by auto

text \<open>
  C1 as stated (each unordered pair once, \<open>d * 2^(d-1)\<close> edges) fails on the square: the
  generator emits eight pairs for its four edges, each edge in both directions.
\<close>

theorem edgeGenerator_square_counterexample:
  "edgeGenerator 2 (cubePointsGenerator 2 2)
     = Returned [(0, 1), (0, 2), (1, 0), (1, 3), (2, 0), (2, 3), (3, 1), (3, 2)]
   \<and> map_result length (edgeGenerator 2 (cubePointsGenerator 2 2)) \<noteq> Returned (2 * 2 ^ (2 - 1))"
  by code_simp

section \<open>Rotation and projection\<close>

lemma square_nth: "square n m \<Longrightarrow> a < n \<Longrightarrow> length (m ! a) = n"
  by (simp add: square_def list_all_length)

lemma square_rows: "square n m \<Longrightarrow> \<forall>r\<in>set m. length r = n"
  by (simp add: square_def list_all_iff)

lemma square_init: "square n (init n n x)"
  by (simp add: square_def init_def list_all_iff)

lemma square_setEntry: "square n m \<Longrightarrow> square n (setEntry m r c v)"
  by (cases "r < length m") (auto simp: square_def setEntry_def list_all_length nth_list_update)

lemma setEntry_nth:
  "r < length m \<Longrightarrow> c < length (m ! r) \<Longrightarrow>
   setEntry m r c v ! a ! b = (if a = r \<and> b = c then v else m ! a ! b)"
  by (auto simp: setEntry_def nth_list_update)

lemma setEntry_square_nth:
  "square n m \<Longrightarrow> r < n \<Longrightarrow> c < n \<Longrightarrow>
   setEntry m r c v ! a ! b = (if a = r \<and> b = c then v else m ! a ! b)"
  using setEntry_nth [of r m c v a b] by (simp add: square_def list_all_length)

lemma square_diagonal: "square n m \<Longrightarrow> square n (fold (\<lambda>k m. setEntry m k k v) [0..<l] m)"
  by (induction l) (simp_all add: square_setEntry)

lemma diagonal_nth:
  assumes "l \<le> n" "a < n" "b < n"
  shows "fold (\<lambda>k m. setEntry m k k v) [0..<l] (init n n 0) ! a ! b = (if a = b \<and> a < l then v else 0)"
  using assms(1)
proof (induction l)
  case 0
  show ?case using assms(2,3) by (simp add: init_def)
next
  case (Suc l)
  have sq: "square n (fold (\<lambda>k m. setEntry m k k v) [0..<l] (init n n 0))"
    by (rule square_diagonal [OF square_init])
  show ?case
    using Suc setEntry_square_nth [OF sq, of l l v a b] by auto
qed

lemma toPoint_toMatrix: "toPoint (toMatrix v) = Returned v"
  by (simp add: toPoint_def toMatrix_def list_all_iff comp_def)

lemma mul_column:
  assumes sq: "square d m" and v: "length v = d" and d: "0 < d"
  shows "mul m (toMatrix v) = Returned (toMatrix (map (\<lambda>a. \<Sum>k<d. m ! a ! k * v ! k) [0..<d]))"
proof -
  have ne: "m \<noteq> []" using sq d by (auto simp: square_def)
  have "mul m (toMatrix v)
      = Returned (map (\<lambda>i. map (\<lambda>j. \<Sum>k<d. m ! i ! k * toMatrix v ! k ! j) [0..<1]) [0..<length m])"
    using mul_rect [OF ne square_rows [OF sq] d, of "toMatrix v" 1] v
    by (simp add: toMatrix_def)
  moreover have "(\<Sum>k<d. m ! i ! k * toMatrix v ! k ! 0) = (\<Sum>k<d. m ! i ! k * v ! k)" for i
    using v by (intro sum.cong) (simp_all add: toMatrix_def)
  moreover have "length m = d" using sq by (simp add: square_def)
  ultimately show ?thesis
    by (simp add: toMatrix_def comp_def)
qed

lemma scale_column:
  assumes w: "length w = len" and len: "0 < len"
  shows "mul (fold (\<lambda>j matrix. setEntry matrix j j r) [0..<len] (init len len 0)) (toMatrix w)
       = Returned (toMatrix (map (\<lambda>x. r * x) w))"
proof -
  let ?m = "fold (\<lambda>j matrix. setEntry matrix j j r) [0..<len] (init len len 0)"
  have sq: "square len ?m" by (rule square_diagonal [OF square_init])
  have "(\<Sum>k<len. ?m ! a ! k * w ! k) = r * w ! a" if "a < len" for a
  proof -
    have "(\<Sum>k<len. ?m ! a ! k * w ! k) = (\<Sum>k<len. (if a = k then r else 0) * w ! k)"
      using that by (intro sum.cong) (simp_all add: diagonal_nth)
    also have "\<dots> = (\<Sum>k<len. if k = a then r * w ! k else 0)"
      by (intro sum.cong) auto
    also have "\<dots> = r * w ! a" using that by simp
    finally show ?thesis .
  qed
  then have "map (\<lambda>a. \<Sum>k<len. ?m ! a ! k * w ! k) [0..<len] = map (\<lambda>a. r * w ! a) [0..<len]"
    by simp
  also have "\<dots> = map (\<lambda>x. r * x) w"
    using w by (simp add: list_eq_iff_nth_eq)
  finally show ?thesis
    using mul_column [OF sq w len] by simp
qed

lemma projectLoop_step:
  assumes "length w = len" "1 < i" "i < len"
  shows "projectLoop far len w i =
         (if far - w ! i = 0 then NonReal
          else projectLoop far len (map (\<lambda>x. far / (far - w ! i) * x) w) (i - 1))"
proof -
  have len: "0 < len" using assms by simp
  show ?thesis
    using assms
    by (subst projectLoop.simps)
       (simp add: nth_opt_def Let_def scale_column [OF assms(1) len] bindR_def toPoint_toMatrix)
qed

lemma projectLoop_stop: "i \<le> 1 \<Longrightarrow> projectLoop far len w i = Returned w"
  by (subst projectLoop.simps) simp

lemma projectLoop_steps:
  "length w = len \<Longrightarrow> i < len \<or> i \<le> 1 \<Longrightarrow> projectLoop far len w i = projectSteps far w i"
proof (induction far w i rule: projectSteps.induct)
  case (1 far w i)
  show ?case
  proof (cases "1 < i")
    case False
    then show ?thesis by (simp add: projectLoop_stop projectSteps.simps [of far w i])
  next
    case True
    then have i: "i < len" using "1.prems" by simp
    show ?thesis
    proof (cases "far - w ! i = 0")
      case z: True
      have l: "projectLoop far len w i = NonReal"
        using projectLoop_step [OF "1.prems"(1) True i, of far] z by simp
      have r: "projectSteps far w i = NonReal"
        using True z by (subst projectSteps.simps) simp
      show ?thesis by (simp only: l r)
    next
      case nz: False
      have ih: "projectLoop far len (map (\<lambda>x. far / (far - w ! i) * x) w) (i - 1)
          = projectSteps far (map (\<lambda>x. far / (far - w ! i) * x) w) (i - 1)"
      proof (rule "1.IH" [OF True nz])
        show "length (map (\<lambda>x. far / (far - w ! i) * x) w) = len"
          using "1.prems"(1) by simp
        show "i - 1 < len \<or> i - 1 \<le> 1" using i by arith
      qed
      have l: "projectLoop far len w i
          = projectLoop far len (map (\<lambda>x. far / (far - w ! i) * x) w) (i - 1)"
        by (simp only: projectLoop_step [OF "1.prems"(1) True i] nz if_False)
      have r: "projectSteps far w i
          = projectSteps far (map (\<lambda>x. far / (far - w ! i) * x) w) (i - 1)"
        by (subst projectSteps.simps) (simp only: True nz if_True if_False)
      show ?thesis by (simp only: l r ih)
    qed
  qed
qed

lemma projectSteps_length: "projectSteps far w i = Returned q \<Longrightarrow> length q = length w"
proof (induction far w i rule: projectSteps.induct)
  case (1 far w i)
  then show ?case
    by (subst (asm) (2) projectSteps.simps) (auto split: if_splits)
qed

lemma projectPoint_steps:
  "projectPoint G point = projectSteps (FAR_CLIPPING_PLANE G) point (length point - 1)"
  unfolding projectPoint_def by (rule projectLoop_steps) auto

lemma square_rotation: "square d (rotation d i j theta)"
  unfolding rotation_def Let_def
  by (intro square_setEntry square_diagonal square_init)

lemma rotation_cases:
  "i < j \<Longrightarrow>
   (if a = j \<and> b = j then c else if a = j \<and> b = i then s else if a = i \<and> b = j then ms
    else if a = i \<and> b = i then c else if a = b then 1 else (0::real))
   = (if (a = i \<and> b = i) \<or> (a = j \<and> b = j) then c else if a = i \<and> b = j then ms
      else if a = j \<and> b = i then s else if a = b then 1 else 0)"
  by auto

lemma rotation_nth:
  assumes "i < j" "j < d" "a < d" "b < d"
  shows "rotation d i j theta ! a ! b = planeRotation (i, j) theta a b"
proof -
  define m0 where "m0 = fold (\<lambda>k matrix. setEntry matrix k k 1) [0..<d] (init d d 0)"
  define m1 where "m1 = setEntry m0 i i (cos theta)"
  define m2 where "m2 = setEntry m1 i j (- sin theta)"
  define m3 where "m3 = setEntry m2 j i (sin theta)"
  define m4 where "m4 = setEntry m3 j j (cos theta)"
  have s0: "square d m0" unfolding m0_def by (intro square_diagonal square_init)
  have s1: "square d m1" unfolding m1_def by (intro square_setEntry s0)
  have s2: "square d m2" unfolding m2_def by (intro square_setEntry s1)
  have s3: "square d m3" unfolding m3_def by (intro square_setEntry s2)
  have i: "i < d" using assms by simp
  have e0: "m0 ! a ! b = (if a = b then 1 else 0)"
    unfolding m0_def using diagonal_nth [of d d a b 1] assms by simp
  have e1: "m1 ! a ! b = (if a = i \<and> b = i then cos theta else m0 ! a ! b)"
    unfolding m1_def by (rule setEntry_square_nth [OF s0 i i])
  have e2: "m2 ! a ! b = (if a = i \<and> b = j then - sin theta else m1 ! a ! b)"
    unfolding m2_def by (rule setEntry_square_nth [OF s1 i assms(2)])
  have e3: "m3 ! a ! b = (if a = j \<and> b = i then sin theta else m2 ! a ! b)"
    unfolding m3_def by (rule setEntry_square_nth [OF s2 assms(2) i])
  have e4: "m4 ! a ! b = (if a = j \<and> b = j then cos theta else m3 ! a ! b)"
    unfolding m4_def by (rule setEntry_square_nth [OF s3 assms(2) assms(2)])
  have "rotation d i j theta = m4"
    by (simp only: rotation_def Let_def m4_def m3_def m2_def m1_def m0_def)
  then show ?thesis
    by (simp only: e4 e3 e2 e1 e0 planeRotation_def fst_conv snd_conv rotation_cases [OF assms(1)])
qed

lemma rotationsGenerator_planes: "rotationsGenerator d = map (\<lambda>(i, j). rotation d i j) (planes d)"
  by (simp add: rotationsGenerator_def planes_def map_concat comp_def)

lemma planes_bounds: "p \<in> set (planes d) \<Longrightarrow> fst p < snd p \<and> snd p < d"
  by (auto simp: planes_def)

lemma rotate_column:
  assumes "fst p < snd p" "snd p < d" "length v = d"
  shows "mul (rotation d (fst p) (snd p) theta) (toMatrix v)
       = Returned (toMatrix (map (\<lambda>a. \<Sum>b<d. planeRotation p theta a b * v ! b) [0..<d]))"
proof -
  have d: "0 < d" using assms by simp
  have "(\<Sum>k<d. rotation d (fst p) (snd p) theta ! a ! k * v ! k)
      = (\<Sum>b<d. planeRotation p theta a b * v ! b)" if "a < d" for a
    using that assms rotation_nth [of "fst p" "snd p" d a _ theta]
    by (intro sum.cong) simp_all
  then have eq: "map (\<lambda>a. \<Sum>k<d. rotation d (fst p) (snd p) theta ! a ! k * v ! k) [0..<d]
      = map (\<lambda>a. \<Sum>b<d. planeRotation p theta a b * v ! b) [0..<d]"
    by simp
  show ?thesis
    by (simp only: mul_column [OF square_rotation assms(3) d] eq)
qed

lemma rotateLoop_planes:
  assumes "\<forall>p\<in>set ps. fst p < snd p \<and> snd p < d" "length v = d"
  shows "rotateLoop offset rotationLength theta (map (\<lambda>(i, j). rotation d i j) ps) (toMatrix v) multiplier
       = Returned (toMatrix (applyPlanes d offset rotationLength theta ps v multiplier))"
  using assms
proof (induction ps arbitrary: v multiplier)
  case Nil
  show ?case by simp
next
  case (Cons p ps)
  have p: "fst p < snd p" "snd p < d" using Cons.prems by simp_all
  let ?theta = "if offset \<noteq> 0 then theta * multiplier else theta"
  let ?v = "map (\<lambda>a. \<Sum>b<d. planeRotation p ?theta a b * v ! b) [0..<d]"
  have step: "mul (rotation d (fst p) (snd p) ?theta) (toMatrix v) = Returned (toMatrix ?v)"
    by (rule rotate_column [OF p Cons.prems(2)])
  have "rotateLoop offset rotationLength theta (map (\<lambda>(i, j). rotation d i j) (p # ps)) (toMatrix v) multiplier
      = rotateLoop offset rotationLength theta (map (\<lambda>(i, j). rotation d i j) ps) (toMatrix ?v)
          (multiplier + offset / rotationLength)"
    using step by (cases "offset = 0") (simp_all add: case_prod_beta bindR_def)
  also have "\<dots> = Returned (toMatrix (applyPlanes d offset rotationLength theta ps ?v
          (multiplier + offset / rotationLength)))"
    using Cons.prems by (intro Cons.IH) simp_all
  finally show ?case by simp
qed

lemma applyPlanes_length:
  "length v = d \<Longrightarrow> length (applyPlanes d offset rotationLength theta ps v multiplier) = d"
  by (induction ps arbitrary: v multiplier) simp_all

lemma planeRotation_zero: "fst p \<noteq> snd p \<Longrightarrow> planeRotation p 0 a b = identity a b"
  unfolding planeRotation_def identity_def
  by (cases "a = b") (simp_all split: if_splits)

lemma identity_apply:
  assumes "length v = d"
  shows "map (\<lambda>a. \<Sum>b<d. identity a b * v ! b) [0..<d] = v"
proof -
  have "(\<Sum>b<d. identity a b * v ! b) = v ! a" if "a < d" for a
  proof -
    have "(\<Sum>b<d. identity a b * v ! b) = (\<Sum>b<d. if b = a then v ! b else 0)"
      by (intro sum.cong) (auto simp: identity_def)
    then show ?thesis using that by simp
  qed
  then show ?thesis using assms by (simp add: list_eq_iff_nth_eq)
qed

lemma applyPlanes_zero:
  assumes "\<forall>p\<in>set ps. fst p < snd p \<and> snd p < d" "length v = d"
  shows "applyPlanes d offset rotationLength 0 ps v multiplier = v"
  using assms
proof (induction ps arbitrary: multiplier)
  case Nil
  show ?case by simp
next
  case (Cons p ps)
  have "fst p \<noteq> snd p" using Cons.prems by auto
  then have "map (\<lambda>a. \<Sum>b<d. planeRotation p (if offset \<noteq> 0 then 0 * multiplier else 0) a b * v ! b) [0..<d] = v"
    using identity_apply [OF Cons.prems(2)] by (simp add: planeRotation_zero)
  then show ?case using Cons by simp
qed

lemma transformPoint_planes:
  assumes "length p = DIMENSIONS G"
  shows "transformPoint G t p =
         Returned (applyPlanes (DIMENSIONS G) (ROTATION_OFFSET G)
                     (real (DIMENSIONS G) * (real (DIMENSIONS G) - 1) / 2)
                     (t * SPEED G * (pi / 180)) (planes (DIMENSIONS G)) p 1)"
  unfolding transformPoint_def Let_def rotationsGenerator_planes
  using rotateLoop_planes [of "planes (DIMENSIONS G)" "DIMENSIONS G" p] planes_bounds assms
  by (simp add: bindR_def toPoint_toMatrix)

lemma gauss_down: "2 * (\<Sum>i<n. n - i) = n * (n + 1)" for n :: nat
proof (induction n)
  case 0
  show ?case by simp
next
  case (Suc n)
  have "(\<Sum>i<n. Suc n - i) = (\<Sum>i<n. Suc (n - i))"
    by (intro sum.cong) (simp_all add: Suc_diff_le)
  also have "\<dots> = (\<Sum>i<n. n - i) + n"
    by (simp add: sum_Suc)
  finally have "(\<Sum>i<Suc n. Suc n - i) = (\<Sum>i<n. n - i) + n + 1"
    by simp
  then show ?case using Suc by simp
qed

lemma planes_length: "length (planes d) = d * (d - 1) div 2"
proof -
  have "length (planes d) = sum_list (map (\<lambda>i. d - (i + 1)) [0..<d - 1])"
    by (simp add: planes_def length_concat comp_def)
  also have "\<dots> = (\<Sum>i<d - 1. d - (i + 1))"
    by (simp add: interv_sum_list_conv_sum_set_nat atLeast0LessThan)
  also have "\<dots> = (\<Sum>i<d - 1. (d - 1) - i)"
    by (intro sum.cong) simp_all
  finally have "2 * length (planes d) = (d - 1) * (d - 1 + 1)"
    using gauss_down [of "d - 1"] by simp
  then have "2 * length (planes d) = d * (d - 1)"
    by (cases d) simp_all
  then show ?thesis by simp
qed

lemma planes_length_real: "real (length (planes d)) = real d * (real d - 1) / 2"
proof -
  have "d * (d - 1) = 2 * length (planes d)"
    using planes_length [of d] by (cases d) (simp_all add: algebra_simps)
  then have "real (d * (d - 1)) = 2 * real (length (planes d))"
    by (metis of_nat_mult of_nat_numeral)
  moreover have "real (d * (d - 1)) = real d * (real d - 1)"
    by (cases d) (simp_all add: algebra_simps)
  ultimately show ?thesis by simp
qed

lemma matMul_apply:
  "(\<Sum>b<d. matMul d P R a b * v b) = (\<Sum>k<d. P a k * (\<Sum>b<d. R k b * v b))"
proof -
  have "(\<Sum>b<d. matMul d P R a b * v b) = (\<Sum>b<d. \<Sum>k<d. P a k * (R k b * v b))"
    by (simp add: matMul_def sum_distrib_right mult.assoc)
  also have "\<dots> = (\<Sum>k<d. \<Sum>b<d. P a k * (R k b * v b))"
    by (rule sum.swap)
  also have "\<dots> = (\<Sum>k<d. P a k * (\<Sum>b<d. R k b * v b))"
    by (simp add: sum_distrib_left)
  finally show ?thesis .
qed

lemma applyPlanes_product:
  assumes "length v = d" "a < d"
  shows "applyPlanes d offset rotationLength theta ps v (1 + real k0 * offset / rotationLength) ! a
       = (\<Sum>b<d. productOf d (map (\<lambda>(k, p). planeRotation p
                      (if offset \<noteq> 0 then theta * (1 + real k * offset / rotationLength) else theta))
                    (enumerate k0 ps)) a b * v ! b)"
  using assms
proof (induction ps arbitrary: v k0 a)
  case Nil
  have "(\<Sum>b<d. identity a b * v ! b) = (\<Sum>b<d. if b = a then v ! b else 0)"
    by (intro sum.cong) (auto simp: identity_def)
  then show ?case using Nil by simp
next
  case (Cons p ps)
  let ?ang = "\<lambda>k. if offset \<noteq> 0 then theta * (1 + real k * offset / rotationLength) else theta"
  let ?v = "map (\<lambda>a. \<Sum>b<d. planeRotation p (?ang k0) a b * v ! b) [0..<d]"
  let ?P = "productOf d (map (\<lambda>(k, p). planeRotation p (?ang k)) (enumerate (Suc k0) ps))"
  have m: "1 + real k0 * offset / rotationLength + offset / rotationLength
         = 1 + real (Suc k0) * offset / rotationLength"
    by (simp add: add_divide_distrib algebra_simps)
  have "applyPlanes d offset rotationLength theta (p # ps) v (1 + real k0 * offset / rotationLength) ! a
      = applyPlanes d offset rotationLength theta ps ?v (1 + real (Suc k0) * offset / rotationLength) ! a"
    by (simp only: applyPlanes.simps m)
  also have "\<dots> = (\<Sum>k<d. ?P a k * ?v ! k)"
    using Cons.prems by (intro Cons.IH) simp_all
  also have "\<dots> = (\<Sum>k<d. ?P a k * (\<Sum>b<d. planeRotation p (?ang k0) k b * v ! b))"
    by (intro sum.cong) simp_all
  also have "\<dots> = (\<Sum>b<d. matMul d ?P (planeRotation p (?ang k0)) a b * v ! b)"
    by (rule matMul_apply [symmetric])
  finally show ?case by (simp add: enumerate_simps)
qed

lemma transformPoint_product:
  assumes "length p = DIMENSIONS G"
  shows "transformPoint G t p
       = Returned (map (\<lambda>a. \<Sum>b<DIMENSIONS G. composedRotation (DIMENSIONS G) (SPEED G * t * (pi / 180))
                                   (ROTATION_OFFSET G) a b * p ! b) [0..<DIMENSIONS G])"
proof -
  let ?d = "DIMENSIONS G"
  let ?rl = "real ?d * (real ?d - 1) / 2"
  let ?theta = "t * SPEED G * (pi / 180)"
  let ?q = "applyPlanes ?d (ROTATION_OFFSET G) ?rl ?theta (planes ?d) p 1"
  have th: "SPEED G * t * (pi / 180) = ?theta" by simp
  have one: "1 + real 0 * ROTATION_OFFSET G / ?rl = 1" by simp
  have comp: "composedRotation ?d (SPEED G * t * (pi / 180)) (ROTATION_OFFSET G)
      = productOf ?d (map (\<lambda>(k, p). planeRotation p
            (if ROTATION_OFFSET G \<noteq> 0 then ?theta * (1 + real k * ROTATION_OFFSET G / ?rl) else ?theta))
          (enumerate 0 (planes ?d)))"
    by (simp only: composedRotation_def planeAngle_def planes_length_real th)
  have "?q ! a = (\<Sum>b<?d. composedRotation ?d (SPEED G * t * (pi / 180)) (ROTATION_OFFSET G) a b * p ! b)"
    if "a < ?d" for a
    using applyPlanes_product [OF assms that, of "ROTATION_OFFSET G" ?rl ?theta "planes ?d" 0]
    by (simp only: one comp)
  moreover have "length ?q = ?d" by (rule applyPlanes_length [OF assms])
  ultimately have "?q = map (\<lambda>a. \<Sum>b<?d. composedRotation ?d (SPEED G * t * (pi / 180))
                                   (ROTATION_OFFSET G) a b * p ! b) [0..<?d]"
    by (simp add: list_eq_iff_nth_eq)
  then show ?thesis
    using transformPoint_planes [OF assms, of t] by simp
qed

lemma transformPoint_zero:
  assumes "length p = DIMENSIONS G" "SPEED G = 0 \<or> t = 0"
  shows "transformPoint G t p = Returned p"
proof -
  have th: "t * SPEED G * (pi / 180) = 0" using assms(2) by auto
  have b: "\<forall>q\<in>set (planes (DIMENSIONS G)). fst q < snd q \<and> snd q < DIMENSIONS G"
    using planes_bounds by blast
  have "transformPoint G t p =
         Returned (applyPlanes (DIMENSIONS G) (ROTATION_OFFSET G)
                     (real (DIMENSIONS G) * (real (DIMENSIONS G) - 1) / 2)
                     0 (planes (DIMENSIONS G)) p 1)"
    using transformPoint_planes [OF assms(1), of t] by (simp only: th)
  then show ?thesis
    by (simp only: applyPlanes_zero [OF b assms(1)])
qed

text \<open>
  C4, amended: perspective projection iterates the axis index \<open>i\<close> from the last
  coordinate down to 2; at each step it computes \<open>r = far / (far - n)\<close>, \<open>n\<close> the coordinate
  of the working point at axis \<open>i\<close>, and replaces the working point by the full-size
  diagonal matrix of \<open>r\<close> times the whole working point, so every coordinate is scaled and
  the point keeps its length. Coordinates 0 and 1 are never the projection axis.
\<close>

theorem projectPoint_scales_whole_point:
  "projectPoint G point = projectSteps (FAR_CLIPPING_PLANE G) point (length point - 1)
   \<and> (\<forall>q. projectPoint G point = Returned q \<longrightarrow> length q = length point)"
  using projectPoint_steps [of G point] projectSteps_length by auto

theorem projectPoint_scales_whole_point_witness:
  "projectPoint \<lparr>DIMENSIONS = 3, SPEED = 30, SIZE = 2, ROTATION_OFFSET = 1, FAR_CLIPPING_PLANE = 1000\<rparr>
      [1, 1, 1] = Returned [1000 / 999, 1000 / 999, 1000 / 999]
   \<and> length [1000 / 999, 1000 / 999, 1000 / 999 :: real] = length [1, 1, 1 :: real]"
proof -
  have "projectSteps 1000 [1, 1, 1] (length [1, 1, 1 :: real] - 1)
      = Returned [1000 / 999, 1000 / 999, 1000 / 999]"
    by code_simp
  then show ?thesis
    using projectPoint_scales_whole_point
      [of "\<lparr>DIMENSIONS = 3, SPEED = 30, SIZE = 2, ROTATION_OFFSET = 1, FAR_CLIPPING_PLANE = 1000\<rparr>"
          "[1, 1, 1]"]
    by simp
qed

text \<open>
  C4 as stated fails: the working point is not restricted to its first \<open>i\<close> coordinates.
  For the point \<open>(1, 1, 1)\<close> the code returns three coordinates, the restricted loop two.
\<close>

theorem projectPoint_keeps_length_counterexample:
  "projectPoint \<lparr>DIMENSIONS = 3, SPEED = 30, SIZE = 2, ROTATION_OFFSET = 1, FAR_CLIPPING_PLANE = 1000\<rparr>
      [1, 1, 1] = Returned [1000 / 999, 1000 / 999, 1000 / 999]
   \<and> projectRestricted 1000 [1, 1, 1] (length [1, 1, 1 :: real] - 1) = Returned [1000 / 999, 1000 / 999]"
  by code_simp

text \<open>
  C3: for a dimension of at least 2 and a point of that dimension, the rotated point is
  \<open>R\<^sub>m\<^sub>-\<^sub>1(theta\<^sub>m\<^sub>-\<^sub>1) * ... * R\<^sub>0(theta\<^sub>0) * p\<close>, over the \<open>m = d (d - 1) / 2\<close> planes in their
  enumeration order, with \<open>theta_base = s * t * (pi / 180)\<close> and
  \<open>theta\<^sub>k = theta_base * (1 + k * o / m)\<close> for a rotation offset \<open>o\<close> that is not zero,
  \<open>theta\<^sub>k = theta_base\<close> otherwise.
\<close>

theorem transformPoint_composed_rotation:
  assumes "2 \<le> DIMENSIONS G" and "length p = DIMENSIONS G"
  shows "length (planes (DIMENSIONS G)) = DIMENSIONS G * (DIMENSIONS G - 1) div 2
       \<and> transformPoint G t p
         = Returned (map (\<lambda>a. \<Sum>b<DIMENSIONS G. composedRotation (DIMENSIONS G) (SPEED G * t * (pi / 180))
                                   (ROTATION_OFFSET G) a b * p ! b) [0..<DIMENSIONS G])"
  using planes_length [of "DIMENSIONS G"] transformPoint_product [OF assms(2), of t] by (rule conjI)

theorem transformPoint_composed_rotation_witness:
  "2 \<le> DIMENSIONS \<lparr>DIMENSIONS = 2, SPEED = 30, SIZE = 300, ROTATION_OFFSET = 1, FAR_CLIPPING_PLANE = 1000\<rparr>
   \<and> length [150, - 150 :: real]
       = DIMENSIONS \<lparr>DIMENSIONS = 2, SPEED = 30, SIZE = 300, ROTATION_OFFSET = 1, FAR_CLIPPING_PLANE = 1000\<rparr>
   \<and> length (planes 2) = 1
   \<and> (\<exists>q. transformPoint \<lparr>DIMENSIONS = 2, SPEED = 30, SIZE = 300, ROTATION_OFFSET = 1,
                             FAR_CLIPPING_PLANE = 1000\<rparr> 3 [150, - 150] = Returned q)"
  using transformPoint_composed_rotation
    [of "\<lparr>DIMENSIONS = 2, SPEED = 30, SIZE = 300, ROTATION_OFFSET = 1, FAR_CLIPPING_PLANE = 1000\<rparr>"
        "[150, - 150]" 3]
  by simp

lemma cube3_last: "cubePointsGenerator 3 2 ! 7 = [1, 1, 1]"
  by code_simp

lemma cube3_member: "[1, 1, 1] \<in> set (cubePointsGenerator 3 2)"
  by code_simp

text \<open>
  C8: when the speed or the elapsed time is 0, every base point is returned unchanged by
  the rotation, in every dimension from 2 on. In the scenario with 3 dimensions, size 2 and
  far clipping plane 1000, the base point \<open>(1, 1, 1)\<close> is projected with \<open>r = 1000/999\<close>, and its
  coordinates 0 and 1 become \<open>1000/999\<close>.
\<close>

theorem zero_angle_identity_and_scenario:
  assumes "2 \<le> DIMENSIONS G" and "SPEED G = 0 \<or> t = 0"
    and "p \<in> set (cubePointsGenerator (DIMENSIONS G) (SIZE G))"
  shows "transformPoint G t p = Returned p
       \<and> cubePointsGenerator 3 2 ! 7 = [1, 1, 1]
       \<and> transformPoint \<lparr>DIMENSIONS = 3, SPEED = 0, SIZE = 2, ROTATION_OFFSET = off,
                           FAR_CLIPPING_PLANE = 1000\<rparr> t' [1, 1, 1] = Returned [1, 1, 1]
       \<and> 1000 / (1000 - [1, 1, 1] ! 2) = (1000 / 999 :: real)
       \<and> projectPoint \<lparr>DIMENSIONS = 3, SPEED = 0, SIZE = 2, ROTATION_OFFSET = off,
                         FAR_CLIPPING_PLANE = 1000\<rparr> [1, 1, 1]
         = Returned [1000 / 999, 1000 / 999, 1000 / 999]"
proof -
  have "length p = DIMENSIONS G"
    using assms(1,3) cubePoints_rows [of "DIMENSIONS G" "SIZE G"] by simp
  then have general: "transformPoint G t p = Returned p"
    using assms(2) by (rule transformPoint_zero)
  have rotated: "transformPoint \<lparr>DIMENSIONS = 3, SPEED = 0, SIZE = 2, ROTATION_OFFSET = off,
                           FAR_CLIPPING_PLANE = 1000\<rparr> t' [1, 1, 1] = Returned [1, 1, 1]"
    by (rule transformPoint_zero) simp_all
  have "projectSteps 1000 [1, 1, 1] (length [1, 1, 1 :: real] - 1)
      = Returned [1000 / 999, 1000 / 999, 1000 / 999]"
    by code_simp
  then have projected: "projectPoint \<lparr>DIMENSIONS = 3, SPEED = 0, SIZE = 2, ROTATION_OFFSET = off,
                         FAR_CLIPPING_PLANE = 1000\<rparr> [1, 1, 1]
         = Returned [1000 / 999, 1000 / 999, 1000 / 999]"
    by (simp add: projectPoint_steps)
  show ?thesis
    using general rotated projected cube3_last by simp
qed

theorem zero_angle_identity_and_scenario_witness:
  "2 \<le> DIMENSIONS \<lparr>DIMENSIONS = 3, SPEED = 0, SIZE = 2, ROTATION_OFFSET = 1, FAR_CLIPPING_PLANE = 1000\<rparr>
   \<and> SPEED \<lparr>DIMENSIONS = 3, SPEED = 0, SIZE = 2, ROTATION_OFFSET = 1, FAR_CLIPPING_PLANE = 1000\<rparr> = 0
   \<and> [1, 1, 1] \<in> set (cubePointsGenerator 3 2)
   \<and> transformPoint \<lparr>DIMENSIONS = 3, SPEED = 0, SIZE = 2, ROTATION_OFFSET = 1, FAR_CLIPPING_PLANE = 1000\<rparr>
        5 [1, 1, 1] = Returned [1, 1, 1]"
  using zero_angle_identity_and_scenario
    [of "\<lparr>DIMENSIONS = 3, SPEED = 0, SIZE = 2, ROTATION_OFFSET = 1, FAR_CLIPPING_PLANE = 1000\<rparr>"
        5 "[1, 1, 1]"] cube3_member
  by simp

end
